theory Spec2Isabelle
  imports Main "HOL-Library.Word" "HOL-Library.AList"
begin

section \<open>Data model of the consistent hashing ring (src/index.ts)\<close>

text \<open>
  A position is the 32-bit unsigned result of \<open>hash32\<close>. The hash function is imported
  from the package \<open>murmur-hash\<close>, so every operation below takes it as a parameter.
  A JavaScript string is modelled as a \<open>string\<close>, one \<open>char\<close> per code unit, so that
  \<open>length\<close> is the \<open>.length\<close> of the source. The file holds the class twice; the
  model is of the first copy, the one with \<open>validateIdentifier\<close>, \<open>remove\<close>, \<open>toJSON\<close>
  and \<open>fromJSON\<close>.
\<close>

type_synonym position = "32 word"

type_synonym hash32 = "string \<Rightarrow> position"

text \<open>\<open>new Error(message)\<close>: the only exception the class throws.\<close>

datatype error = Error string

text \<open>
  The private fields of the class. \<open>ring\<close> is a \<open>Map<number, string>\<close>: an association
  list in insertion order, where \<open>Map.set\<close> is \<open>AList.update\<close> (overwrite in place, or
  append), \<open>Map.delete\<close> is \<open>AList.delete\<close> and \<open>Map.get\<close> is \<open>map_of\<close>.
  \<open>replicas\<close> is a \<open>number\<close> the constructor does not check; the model takes an
  integer, of any sign.
\<close>

record hash_orbit =
  ring :: "(position \<times> string) list"
  sortedKeys :: "position list"
  replicas :: int

text \<open>\<open>constructor(options)\<close>: \<open>options.replicas ?? 150\<close>, an empty map and index.\<close>

definition HashOrbit :: "int option \<Rightarrow> hash_orbit" where
  "HashOrbit options =
     \<lparr>ring = [], sortedKeys = [],
      replicas = (case options of None \<Rightarrow> 150 | Some r \<Rightarrow> r)\<rparr>"

definition validateIdentifier :: "string \<Rightarrow> string \<Rightarrow> error + unit" where
  "validateIdentifier v name =
     (if v = [] then Inl (Error (name @ '' cannot be empty''))
      else if length v > 1000
        then Inl (Error (name @ '' exceeds maximum length of 1000 characters''))
      else Inr ())"

text \<open>\<open>new Set(xs)\<close>: the distinct elements in the order of their first occurrence.\<close>

definition Set_add :: "'a \<Rightarrow> 'a list \<Rightarrow> 'a list" where
  "Set_add x acc = (if x \<in> set acc then acc else acc @ [x])"

definition new_Set :: "'a list \<Rightarrow> 'a list" where
  "new_Set xs = fold Set_add xs []"

definition getUniqueNodes :: "hash_orbit \<Rightarrow> string list" where
  "getUniqueNodes s = new_Set (map snd (ring s))"

text \<open>The decimal text of a loop counter, as the template literal prints it.\<close>

fun string_of_nat :: "nat \<Rightarrow> string" where
  "string_of_nat n =
     (if n < 10 then [char_of (48 + n)]
      else string_of_nat (n div 10) @ [char_of (48 + n mod 10)])"

declare string_of_nat.simps [simp del]

text \<open>The template literal \<open>`${node}:${i}`\<close>.\<close>

definition replica_key :: "string \<Rightarrow> nat \<Rightarrow> string" where
  "replica_key node i = node @ '':'' @ string_of_nat i"

text \<open>The loop \<open>for (let i = 0; i < this.replicas; i++)\<close> of \<open>add\<close>.\<close>

function add_loop :: "hash32 \<Rightarrow> string \<Rightarrow> int \<Rightarrow> nat \<Rightarrow> (position \<times> string) list
    \<Rightarrow> (position \<times> string) list" where
  "add_loop h node reps i m =
     (if int i < reps
      then add_loop h node reps (Suc i) (AList.update (h (replica_key node i)) node m)
      else m)"
  by pat_completeness auto
termination
  by (relation "measure (\<lambda>(h, node, reps, i, m). nat (reps - int i))") auto

declare add_loop.simps [simp del]

definition add :: "hash32 \<Rightarrow> string \<Rightarrow> hash_orbit \<Rightarrow> error + hash_orbit" where
  "add h node s =
     (case validateIdentifier node ''Node identifier'' of
        Inl e \<Rightarrow> Inl e
      | Inr _ \<Rightarrow>
          (let m = add_loop h node (replicas s) 0 (ring s)
           in Inr (s\<lparr>ring := m, sortedKeys := sort (map fst m)\<rparr>)))"

text \<open>The loop of \<open>remove\<close>.\<close>

function remove_loop :: "hash32 \<Rightarrow> string \<Rightarrow> int \<Rightarrow> nat \<Rightarrow> (position \<times> string) list
    \<Rightarrow> (position \<times> string) list" where
  "remove_loop h node reps i m =
     (if int i < reps
      then remove_loop h node reps (Suc i) (AList.delete (h (replica_key node i)) m)
      else m)"
  by pat_completeness auto
termination
  by (relation "measure (\<lambda>(h, node, reps, i, m). nat (reps - int i))") auto

declare remove_loop.simps [simp del]

definition remove :: "hash32 \<Rightarrow> string \<Rightarrow> hash_orbit \<Rightarrow> error + hash_orbit" where
  "remove h node s =
     (case validateIdentifier node ''Node identifier'' of
        Inl e \<Rightarrow> Inl e
      | Inr _ \<Rightarrow>
          (let m = remove_loop h node (replicas s) 0 (ring s)
           in Inr (s\<lparr>ring := m, sortedKeys := sort (map fst m)\<rparr>)))"

text \<open>An array read \<open>xs[i]\<close>: \<open>undefined\<close> out of range.\<close>

definition at_index :: "'a list \<Rightarrow> nat \<Rightarrow> 'a option" where
  "at_index xs i = (if i < length xs then Some (xs ! i) else None)"

text \<open>
  The \<open>while\<close> loop of \<open>binarySearch\<close>. A comparison of \<open>undefined\<close> with a number is
  false.
\<close>

function binarySearch_loop :: "position list \<Rightarrow> position \<Rightarrow> nat \<Rightarrow> nat \<Rightarrow> nat" where
  "binarySearch_loop keys target left right =
     (if left < right
      then (let mid = (left + right) div 2
            in if (case at_index keys mid of Some v \<Rightarrow> v < target | None \<Rightarrow> False)
               then binarySearch_loop keys target (mid + 1) right
               else binarySearch_loop keys target left mid)
      else left)"
  by pat_completeness auto
termination
  by (relation "measure (\<lambda>(keys, target, left, right). right - left)") auto

declare binarySearch_loop.simps [simp del]

definition binarySearch :: "hash_orbit \<Rightarrow> position \<Rightarrow> nat" where
  "binarySearch s target = binarySearch_loop (sortedKeys s) target 0 (length (sortedKeys s))"

text \<open>\<open>this.ring.get(this.sortedKeys[idx]!)\<close>: \<open>undefined\<close> is no key of the map.\<close>

definition node_at :: "hash_orbit \<Rightarrow> nat \<Rightarrow> string option" where
  "node_at s idx =
     (case at_index (sortedKeys s) idx of None \<Rightarrow> None | Some p \<Rightarrow> map_of (ring s) p)"

definition get :: "hash32 \<Rightarrow> hash_orbit \<Rightarrow> string \<Rightarrow> error + string option" where
  "get h s key =
     (case validateIdentifier key ''Key'' of
        Inl e \<Rightarrow> Inl e
      | Inr _ \<Rightarrow>
          (if ring s = [] then Inr None
           else (let position = h key;
                     idx = binarySearch s position;
                     idx = (if idx \<ge> length (sortedKeys s) then 0 else idx)
                 in Inr (node_at s idx))))"

text \<open>
  The \<open>for\<close> loop of \<open>getN\<close>; \<open>seen\<close> is the \<open>Set\<close> and \<open>result\<close> the array. The test
  \<open>node && !seen.has(node)\<close> fails for \<open>undefined\<close> and for the empty string. The
  count is taken as an integer.
\<close>

function getN_loop :: "hash_orbit \<Rightarrow> int \<Rightarrow> nat \<Rightarrow> nat \<Rightarrow> string list \<Rightarrow> string list
    \<Rightarrow> string list" where
  "getN_loop s count i idx seen result =
     (if i < length (sortedKeys s) \<and> int (length result) < count
      then (let idx = (if idx \<ge> length (sortedKeys s) then 0 else idx)
            in case node_at s idx of
                 Some node \<Rightarrow>
                   (if node \<noteq> [] \<and> node \<notin> set seen
                    then getN_loop s count (i + 1) (idx + 1) (Set_add node seen) (result @ [node])
                    else getN_loop s count (i + 1) (idx + 1) seen result)
               | None \<Rightarrow> getN_loop s count (i + 1) (idx + 1) seen result)
      else result)"
  by pat_completeness auto
termination
  by (relation "measure (\<lambda>(s, count, i, idx, seen, result). length (sortedKeys s) - i)") auto

declare getN_loop.simps [simp del]

definition getN :: "hash32 \<Rightarrow> hash_orbit \<Rightarrow> string \<Rightarrow> int \<Rightarrow> error + string list" where
  "getN h s key count =
     (case validateIdentifier key ''Key'' of
        Inl e \<Rightarrow> Inl e
      | Inr _ \<Rightarrow>
          (if ring s = [] \<or> count \<le> 0 then Inr []
           else (let position = h key;
                     idx = binarySearch s position
                 in Inr (getN_loop s count 0 idx [] []))))"

definition size_orbit :: "hash_orbit \<Rightarrow> nat" where
  "size_orbit s = length (getUniqueNodes s)"

definition nodes :: "hash_orbit \<Rightarrow> string list" where
  "nodes s = getUniqueNodes s"

text \<open>The serialised form \<open>{ nodes, replicas }\<close>.\<close>

record json =
  json_nodes :: "string list"
  json_replicas :: int

definition toJSON :: "hash_orbit \<Rightarrow> json" where
  "toJSON s = \<lparr>json_nodes = nodes s, json_replicas = replicas s\<rparr>"

text \<open>The loop \<open>for (const node of json.nodes) ring.add(node)\<close>; a throw ends it.\<close>

fun add_all :: "hash32 \<Rightarrow> string list \<Rightarrow> hash_orbit \<Rightarrow> error + hash_orbit" where
  "add_all h [] s = Inr s"
| "add_all h (node # rest) s =
     (case add h node s of Inl e \<Rightarrow> Inl e | Inr s' \<Rightarrow> add_all h rest s')"

definition fromJSON :: "hash32 \<Rightarrow> json \<Rightarrow> error + hash_orbit" where
  "fromJSON h j = add_all h (json_nodes j) (HashOrbit (Some (json_replicas j)))"

text \<open>
  The rings a caller can hold: a constructed ring after any sequence of \<open>add\<close> and
  \<open>remove\<close> calls that did not throw.
\<close>

datatype call = Add string | Remove string

fun perform :: "hash32 \<Rightarrow> call \<Rightarrow> hash_orbit \<Rightarrow> error + hash_orbit" where
  "perform h (Add node) s = add h node s"
| "perform h (Remove node) s = remove h node s"

fun run :: "hash32 \<Rightarrow> call list \<Rightarrow> hash_orbit \<Rightarrow> error + hash_orbit" where
  "run h [] s = Inr s"
| "run h (c # cs) s =
     (case perform h c s of Inl e \<Rightarrow> Inl e | Inr s' \<Rightarrow> run h cs s')"

section \<open>Stand-in hashes, invariants and auxiliary functions\<close>

text \<open>
  Two stand-ins for the imported hash, used to run the operations on concrete rings: a
  polynomial hash that wraps at 32 bits, and a hash under which the replica keys of the
  nodes \<open>a\<close> and \<open>b\<close> collide at replica index 0.
\<close>

definition poly_hash32 :: hash32 where
  "poly_hash32 key = fold (\<lambda>c acc. acc * 31 + of_nat (of_char c)) key 0"

definition colliding_hash32 :: hash32 where
  "colliding_hash32 key = (if key = ''a:1'' then 2 else if key = ''b:1'' then 3 else 1)"

text \<open>
  The representation invariant of the class: the map has each key once, the index is the
  sorted key list, and every stored node passed \<open>validateIdentifier\<close>.
\<close>

definition ring_ok :: "hash_orbit \<Rightarrow> bool" where
  "ring_ok s \<longleftrightarrow>
     distinct (map fst (ring s)) \<and> sortedKeys s = sort (map fst (ring s)) \<and>
     (\<forall>n \<in> set (map snd (ring s)). n \<noteq> [] \<and> length n \<le> 1000)"

text \<open>The ring built by \<open>add('a'); add('b')\<close> with two replicas under \<open>poly_hash32\<close>.\<close>

definition example_ring :: hash_orbit where
  "example_ring =
     \<lparr>ring = [(95063, ''a''), (95064, ''a''), (96024, ''b''), (96025, ''b'')],
      sortedKeys = [95063, 95064, 96024, 96025], replicas = 2\<rparr>"

text \<open>
  The lower bound in the words of the specification: the index of the first entry of the
  index whose value is \<open>\<ge>\<close> the target, if there is one.
\<close>

definition first_index_ge :: "position list \<Rightarrow> position \<Rightarrow> nat option" where
  "first_index_ge keys target = find (\<lambda>i. target \<le> keys ! i) [0..<length keys]"

text \<open>The index \<open>get\<close> and \<open>getN\<close> start from: the lower bound, or 0 when there is none.\<close>

definition start_index :: "hash_orbit \<Rightarrow> position \<Rightarrow> nat" where
  "start_index s target =
     (case first_index_ge (sortedKeys s) target of Some i \<Rightarrow> i | None \<Rightarrow> 0)"

text \<open>The statement \<open>if (idx >= this.sortedKeys.length) idx = 0\<close>.\<close>

definition wrap_index :: "hash_orbit \<Rightarrow> nat \<Rightarrow> nat" where
  "wrap_index s idx = (if idx \<ge> length (sortedKeys s) then 0 else idx)"

text \<open>
  The body of the loop of \<open>getN\<close> over the sequence of nodes it visits, used to reason
  about the loop by induction on that sequence.
\<close>

fun collect :: "int \<Rightarrow> string option list \<Rightarrow> string list \<Rightarrow> string list" where
  "collect count [] result = result"
| "collect count (w # ws) result =
     (if int (length result) < count
      then (case w of
              Some node \<Rightarrow>
                (if node \<noteq> [] \<and> node \<notin> set result
                 then collect count ws (result @ [node])
                 else collect count ws result)
            | None \<Rightarrow> collect count ws result)
      else result)"

text \<open>The node a call names.\<close>

fun called_node :: "call \<Rightarrow> string" where
  "called_node (Add node) = node"
| "called_node (Remove node) = node"

text \<open>
  No two different nodes of \<open>ns\<close> have replica keys, at replica indices below the
  replica count, that hash to the same position.
\<close>

definition collision_free :: "hash32 \<Rightarrow> int \<Rightarrow> string list \<Rightarrow> bool" where
  "collision_free h reps ns \<longleftrightarrow>
     (\<forall>n \<in> set ns. \<forall>m \<in> set ns. \<forall>i \<in> {0..<nat reps}. \<forall>j \<in> {0..<nat reps}.
        h (replica_key n i) = h (replica_key m j) \<longrightarrow> n = m)"

text \<open>
  Every entry of the map sits at a position computed for its node, and a node that has an
  entry holds all the positions computed for it.
\<close>

definition owned :: "hash32 \<Rightarrow> hash_orbit \<Rightarrow> bool" where
  "owned h s \<longleftrightarrow>
     (\<forall>p n. map_of (ring s) p = Some n \<longrightarrow>
        (\<exists>i<nat (replicas s). p = h (replica_key n i)) \<and>
        (\<forall>j<nat (replicas s). map_of (ring s) (h (replica_key n j)) = Some n))"

text \<open>
  The ring built by \<open>add('a'); add('b')\<close> with two replicas under \<open>colliding_hash32\<close>,
  and the ring \<open>fromJSON\<close> builds from its \<open>toJSON\<close>.
\<close>

definition collided_ring :: hash_orbit where
  "collided_ring = \<lparr>ring = [(1, ''b''), (2, ''a''), (3, ''b'')], sortedKeys = [1, 2, 3], replicas = 2\<rparr>"

definition restored_ring :: hash_orbit where
  "restored_ring = \<lparr>ring = [(1, ''a''), (3, ''b''), (2, ''a'')], sortedKeys = [1, 2, 3], replicas = 2\<rparr>"

section \<open>The loops as folds\<close>

lemma add_loop_fold:
  "add_loop h node reps i m =
     fold (\<lambda>j. AList.update (h (replica_key node j)) node) [i..<nat reps] m"
proof (induction h node reps i m rule: add_loop.induct)
  case (1 h node reps i m)
  show ?case
  proof (cases "int i < reps")
    case True
    then have "[i..<nat reps] = i # [Suc i..<nat reps]"
      by (simp add: upt_conv_Cons)
    with True 1 show ?thesis by (simp add: add_loop.simps [of h node reps i m])
  next
    case False
    then show ?thesis by (simp add: add_loop.simps [of h node reps i m])
  qed
qed

lemma remove_loop_fold:
  "remove_loop h node reps i m =
     fold (\<lambda>j. AList.delete (h (replica_key node j))) [i..<nat reps] m"
proof (induction h node reps i m rule: remove_loop.induct)
  case (1 h node reps i m)
  show ?case
  proof (cases "int i < reps")
    case True
    then have "[i..<nat reps] = i # [Suc i..<nat reps]"
      by (simp add: upt_conv_Cons)
    with True 1 show ?thesis by (simp add: remove_loop.simps [of h node reps i m])
  next
    case False
    then show ?thesis by (simp add: remove_loop.simps [of h node reps i m])
  qed
qed

lemma validateIdentifier_ok:
  "v \<noteq> [] \<Longrightarrow> length v \<le> 1000 \<Longrightarrow> validateIdentifier v name = Inr ()"
  by (simp add: validateIdentifier_def)

lemma map_of_fold_update:
  "map_of (fold (\<lambda>j. AList.update (f j) v) js m) p =
     (if p \<in> f ` set js then Some v else map_of m p)"
  by (induction js arbitrary: m) (auto simp: update_conv')

lemma update_same: "map_of m k = Some v \<Longrightarrow> AList.update k v m = m"
  by (induction m) (auto split: if_splits)

lemma fold_fixed: "(\<And>x. x \<in> set xs \<Longrightarrow> f x m = m) \<Longrightarrow> fold f xs m = m"
  by (induction xs) auto

lemma add_loop_twice:
  "add_loop h node reps 0 (add_loop h node reps 0 m) = add_loop h node reps 0 m"
  unfolding add_loop_fold
  by (rule fold_fixed) (simp add: update_same map_of_fold_update)

section \<open>Validation\<close>

text \<open>
  C8: \<open>add\<close>, \<open>remove\<close>, \<open>get\<close> and \<open>getN\<close> throw the empty-identifier error exactly for
  the empty string and the too-long error exactly for more than 1000 characters, and
  throw nothing else (so lengths 1 and 1000 succeed); the message starts with
  \<open>Node identifier\<close> for \<open>add\<close> and \<open>remove\<close> and with \<open>Key\<close> for \<open>get\<close> and \<open>getN\<close>.
\<close>

theorem validation_errors:
  "(add h v s = Inl (Error ''Node identifier cannot be empty'') \<longleftrightarrow> v = []) \<and>
   (add h v s = Inl (Error ''Node identifier exceeds maximum length of 1000 characters'')
      \<longleftrightarrow> 1000 < length v) \<and>
   (isl (add h v s) \<longleftrightarrow> v = [] \<or> 1000 < length v) \<and>
   (remove h v s = Inl (Error ''Node identifier cannot be empty'') \<longleftrightarrow> v = []) \<and>
   (remove h v s = Inl (Error ''Node identifier exceeds maximum length of 1000 characters'')
      \<longleftrightarrow> 1000 < length v) \<and>
   (isl (remove h v s) \<longleftrightarrow> v = [] \<or> 1000 < length v) \<and>
   (get h s v = Inl (Error ''Key cannot be empty'') \<longleftrightarrow> v = []) \<and>
   (get h s v = Inl (Error ''Key exceeds maximum length of 1000 characters'')
      \<longleftrightarrow> 1000 < length v) \<and>
   (isl (get h s v) \<longleftrightarrow> v = [] \<or> 1000 < length v) \<and>
   (getN h s v c = Inl (Error ''Key cannot be empty'') \<longleftrightarrow> v = []) \<and>
   (getN h s v c = Inl (Error ''Key exceeds maximum length of 1000 characters'')
      \<longleftrightarrow> 1000 < length v) \<and>
   (isl (getN h s v c) \<longleftrightarrow> v = [] \<or> 1000 < length v)"
  by (auto simp: add_def remove_def get_def getN_def validateIdentifier_def Let_def)

section \<open>Lookups on an empty ring\<close>

text \<open>
  C9: for a valid key, \<open>get\<close> on a ring with no positions returns \<open>undefined\<close> and does
  not throw, and \<open>getN\<close> returns the empty array when the ring has no positions or the
  count is at most 0.
\<close>

theorem empty_ring_lookups:
  assumes "key \<noteq> []" and "length key \<le> 1000"
  shows "(ring s = [] \<longrightarrow> get h s key = Inr None) \<and>
         (ring s = [] \<or> count \<le> 0 \<longrightarrow> getN h s key count = Inr [])"
  using assms by (auto simp: get_def getN_def validateIdentifier_def)

theorem empty_ring_lookups_witness:
  "''k'' \<noteq> [] \<and> length ''k'' \<le> 1000 \<and> ring (HashOrbit None) = [] \<and>
   get poly_hash32 (HashOrbit None) ''k'' = Inr None \<and>
   getN poly_hash32 (HashOrbit None) ''k'' 3 = Inr []"
  using empty_ring_lookups [of "''k''" "HashOrbit None" poly_hash32 3]
  by (simp add: HashOrbit_def)

section \<open>Adding a node twice\<close>

text \<open>
  C6: for a valid node identifier and any ring state, \<open>add\<close> succeeds and a second
  \<open>add\<close> of the same node returns the state the first one produced.
\<close>

theorem add_idempotent:
  assumes "node \<noteq> []" and "length node \<le> 1000"
  shows "\<exists>s1. add h node s = Inr s1 \<and> add h node s1 = Inr s1"
  using assms by (simp add: add_def validateIdentifier_ok add_loop_twice Let_def)

theorem add_idempotent_witness:
  "''a'' \<noteq> [] \<and> length ''a'' \<le> 1000 \<and>
   (\<exists>s1. add poly_hash32 ''a'' (HashOrbit (Some 2)) = Inr s1 \<and>
         add poly_hash32 ''a'' s1 = Inr s1)"
  using add_idempotent [of "''a''" poly_hash32 "HashOrbit (Some 2)"]
  by simp

section \<open>The representation invariant\<close>

lemma run_example:
  "run poly_hash32 [Add ''a'', Add ''b''] (HashOrbit (Some 2)) = Inr example_ring"
  unfolding example_ring_def by code_simp

lemma distinct_fold_update:
  "distinct (map fst m) \<Longrightarrow> distinct (map fst (fold (\<lambda>j. AList.update (f j) v) js m))"
  by (induction js arbitrary: m) (simp_all add: distinct_update)

lemma distinct_fold_delete:
  "distinct (map fst m) \<Longrightarrow> distinct (map fst (fold (\<lambda>j. AList.delete (f j)) js m))"
  by (induction js arbitrary: m) (simp_all add: distinct_delete)

lemma values_update: "snd ` set (AList.update k v m) \<subseteq> insert v (snd ` set m)"
  by (induction m) auto

lemma values_fold_update:
  "snd ` set (fold (\<lambda>j. AList.update (f j) v) js m) \<subseteq> insert v (snd ` set m)"
proof (induction js arbitrary: m)
  case Nil
  show ?case by auto
next
  case (Cons j js)
  have "snd ` set (fold (\<lambda>j. AList.update (f j) v) js (AList.update (f j) v m))
          \<subseteq> insert v (snd ` set (AList.update (f j) v m))"
    by (rule Cons.IH)
  also have "\<dots> \<subseteq> insert v (snd ` set m)"
    using values_update [of "f j" v m] by auto
  finally show ?case by simp
qed

lemma values_fold_delete:
  "set (fold (\<lambda>j. AList.delete (f j)) js m) \<subseteq> set m"
proof (induction js arbitrary: m)
  case Nil
  show ?case by simp
next
  case (Cons j js)
  have "set (fold (\<lambda>j. AList.delete (f j)) js (AList.delete (f j) m))
          \<subseteq> set (AList.delete (f j) m)"
    by (rule Cons.IH)
  also have "\<dots> \<subseteq> set m"
    by (auto simp: AList.delete_eq)
  finally show ?case by simp
qed

lemma ring_ok_HashOrbit: "ring_ok (HashOrbit options)"
  by (simp add: ring_ok_def HashOrbit_def)

lemma ring_ok_add:
  assumes "ring_ok s" and "add h node s = Inr s'"
  shows "ring_ok s'"
proof -
  from assms(2) have valid: "node \<noteq> []" "length node \<le> 1000"
    by (auto simp: add_def validateIdentifier_def split: if_splits)
  define m where "m = add_loop h node (replicas s) 0 (ring s)"
  from assms(2) valid have s': "s' = s\<lparr>ring := m, sortedKeys := sort (map fst m)\<rparr>"
    by (simp add: add_def validateIdentifier_ok m_def Let_def)
  have d: "distinct (map fst m)"
    using assms(1) by (simp add: m_def add_loop_fold distinct_fold_update ring_ok_def)
  have "snd ` set m \<subseteq> insert node (snd ` set (ring s))"
    unfolding m_def add_loop_fold by (rule values_fold_update)
  moreover have "\<forall>n \<in> insert node (snd ` set (ring s)). n \<noteq> [] \<and> length n \<le> 1000"
    using assms(1) valid by (simp add: ring_ok_def)
  ultimately have "\<forall>n \<in> snd ` set m. n \<noteq> [] \<and> length n \<le> 1000"
    by blast
  with d show ?thesis by (simp add: ring_ok_def s')
qed

lemma ring_ok_remove:
  assumes "ring_ok s" and "remove h node s = Inr s'"
  shows "ring_ok s'"
proof -
  from assms(2) have valid: "node \<noteq> []" "length node \<le> 1000"
    by (auto simp: remove_def validateIdentifier_def split: if_splits)
  define m where "m = remove_loop h node (replicas s) 0 (ring s)"
  from assms(2) valid have s': "s' = s\<lparr>ring := m, sortedKeys := sort (map fst m)\<rparr>"
    by (simp add: remove_def validateIdentifier_ok m_def Let_def)
  have d: "distinct (map fst m)"
    using assms(1) by (simp add: m_def remove_loop_fold distinct_fold_delete ring_ok_def)
  have "set m \<subseteq> set (ring s)"
    unfolding m_def remove_loop_fold by (rule values_fold_delete)
  with assms(1) have "\<forall>n \<in> set (map snd m). n \<noteq> [] \<and> length n \<le> 1000"
    by (auto simp: ring_ok_def)
  with d show ?thesis by (simp add: ring_ok_def s')
qed

lemma ring_ok_run: "ring_ok s \<Longrightarrow> run h cs s = Inr s' \<Longrightarrow> ring_ok s'"
proof (induction cs arbitrary: s)
  case Nil
  then show ?case by simp
next
  case (Cons c cs)
  from Cons.prems(2) obtain s1 where p: "perform h c s = Inr s1" and r: "run h cs s1 = Inr s'"
    by (auto split: sum.splits)
  from p Cons.prems(1) have "ring_ok s1"
    by (cases c) (auto intro: ring_ok_add ring_ok_remove)
  with r show ?case by (rule Cons.IH [rotated -1])
qed

lemma set_fold_Set_add: "set (fold Set_add xs acc) = set xs \<union> set acc"
  by (induction xs arbitrary: acc) (auto simp: Set_add_def)

lemma distinct_fold_Set_add: "distinct acc \<Longrightarrow> distinct (fold Set_add xs acc)"
  by (induction xs arbitrary: acc) (auto simp: Set_add_def)

lemma set_new_Set [simp]: "set (new_Set xs) = set xs"
  by (simp add: new_Set_def set_fold_Set_add)

lemma distinct_new_Set [simp]: "distinct (new_Set xs)"
  by (simp add: new_Set_def distinct_fold_Set_add)

text \<open>
  C5: after construction and after every \<open>add\<close> and \<open>remove\<close>, the sorted index holds
  exactly the keys of the entry mapping, ascending and without duplicates, and \<open>nodes\<close>
  lists exactly the values of the entry mapping, each once.
\<close>

theorem ring_invariants:
  assumes "run h cs (HashOrbit options) = Inr s"
  shows "sorted_wrt (<) (sortedKeys s) \<and>
         set (sortedKeys s) = dom (map_of (ring s)) \<and>
         distinct (map fst (ring s)) \<and>
         set (nodes s) = ran (map_of (ring s)) \<and> distinct (nodes s)"
proof -
  have ok: "ring_ok s"
    using ring_ok_HashOrbit assms by (rule ring_ok_run)
  then have d: "distinct (map fst (ring s))" and sk: "sortedKeys s = sort (map fst (ring s))"
    by (simp_all add: ring_ok_def)
  have "sorted_wrt (<) (sortedKeys s)"
    using d by (simp add: sk strict_sorted_iff)
  moreover have "set (sortedKeys s) = dom (map_of (ring s))"
    by (simp add: sk dom_map_of_conv_image_fst)
  moreover have "set (nodes s) = ran (map_of (ring s))"
    using d by (simp add: nodes_def getUniqueNodes_def ran_distinct)
  moreover have "distinct (nodes s)"
    by (simp add: nodes_def getUniqueNodes_def)
  ultimately show ?thesis using d by simp
qed

theorem ring_invariants_witness:
  "run poly_hash32 [Add ''a'', Add ''b''] (HashOrbit (Some 2)) = Inr example_ring \<and>
   sorted_wrt (<) (sortedKeys example_ring) \<and>
   set (sortedKeys example_ring) = dom (map_of (ring example_ring)) \<and>
   distinct (map fst (ring example_ring)) \<and>
   set (nodes example_ring) = ran (map_of (ring example_ring)) \<and>
   distinct (nodes example_ring)"
  using ring_invariants [OF run_example] run_example by simp

section \<open>Removing a node whose positions are absent\<close>



section \<open>A replica count of zero or less\<close>

text \<open>
  C10: on a ring constructed with \<open>replicas \<le> 0\<close>, any sequence of \<open>add\<close> calls with
  valid node identifiers leaves the ring as constructed: no position, size 0, and \<open>get\<close>
  returns \<open>undefined\<close> for every valid key.
\<close>

theorem nonpositive_replicas:
  assumes "r \<le> 0" and "\<forall>n \<in> set ns. n \<noteq> [] \<and> length n \<le> 1000"
  shows "run h (map Add ns) (HashOrbit (Some r)) = Inr (HashOrbit (Some r)) \<and>
         ring (HashOrbit (Some r)) = [] \<and> size_orbit (HashOrbit (Some r)) = 0 \<and>
         (key \<noteq> [] \<and> length key \<le> 1000 \<longrightarrow> get h (HashOrbit (Some r)) key = Inr None)"
proof -
  have one: "add h n (HashOrbit (Some r)) = Inr (HashOrbit (Some r))"
    if "n \<noteq> []" "length n \<le> 1000" for n
    using that assms(1)
    by (simp add: add_def validateIdentifier_ok add_loop_fold HashOrbit_def)
  from assms(2) have "run h (map Add ns) (HashOrbit (Some r)) = Inr (HashOrbit (Some r))"
    by (induction ns) (simp_all add: one)
  moreover have "ring (HashOrbit (Some r)) = []"
    by (simp add: HashOrbit_def)
  moreover have "size_orbit (HashOrbit (Some r)) = 0"
    by (simp add: size_orbit_def getUniqueNodes_def HashOrbit_def new_Set_def)
  moreover have "key \<noteq> [] \<and> length key \<le> 1000 \<longrightarrow> get h (HashOrbit (Some r)) key = Inr None"
    by (simp add: get_def validateIdentifier_ok HashOrbit_def)
  ultimately show ?thesis by simp
qed

theorem nonpositive_replicas_witness:
  "(0::int) \<le> 0 \<and> ''a'' \<noteq> [] \<and> length ''a'' \<le> 1000 \<and> ''b'' \<noteq> [] \<and> length ''b'' \<le> 1000 \<and>
   run poly_hash32 (map Add [''a'', ''b'']) (HashOrbit (Some 0)) = Inr (HashOrbit (Some 0)) \<and>
   ring (HashOrbit (Some 0)) = [] \<and> size_orbit (HashOrbit (Some 0)) = 0 \<and>
   ''k'' \<noteq> [] \<and> length ''k'' \<le> 1000 \<and> get poly_hash32 (HashOrbit (Some 0)) ''k'' = Inr None"
  using nonpositive_replicas [where r = 0 and ns = "[''a'', ''b'']" and key = "''k''"
      and h = poly_hash32]
  by simp

section \<open>The binary search\<close>

lemma first_index_ge_Some:
  "first_index_ge keys t = Some i \<longleftrightarrow>
     i < length keys \<and> t \<le> keys ! i \<and> (\<forall>j<i. keys ! j < t)"
proof
  assume "first_index_ge keys t = Some i"
  then show "i < length keys \<and> t \<le> keys ! i \<and> (\<forall>j<i. keys ! j < t)"
    by (auto simp: first_index_ge_def find_Some_iff)
next
  assume a: "i < length keys \<and> t \<le> keys ! i \<and> (\<forall>j<i. keys ! j < t)"
  then have "i < length [0..<length keys] \<and> t \<le> keys ! ([0..<length keys] ! i) \<and>
      i = [0..<length keys] ! i \<and> (\<forall>j<i. \<not> t \<le> keys ! ([0..<length keys] ! j))"
    by auto
  then show "first_index_ge keys t = Some i"
    unfolding first_index_ge_def find_Some_iff by blast
qed

lemma first_index_ge_None:
  "first_index_ge keys t = None \<longleftrightarrow> (\<forall>i<length keys. keys ! i < t)"
  by (auto simp: first_index_ge_def find_None_iff)

lemma binarySearch_loop_bounds:
  assumes "sorted keys" and "left \<le> right" and "right \<le> length keys"
    and "\<forall>j<left. keys ! j < t"
    and "\<forall>j. right \<le> j \<and> j < length keys \<longrightarrow> t \<le> keys ! j"
  shows "binarySearch_loop keys t left right \<le> length keys \<and>
         (\<forall>j<binarySearch_loop keys t left right. keys ! j < t) \<and>
         (\<forall>j. binarySearch_loop keys t left right \<le> j \<and> j < length keys \<longrightarrow> t \<le> keys ! j)"
  using assms
proof (induction keys t left right rule: binarySearch_loop.induct)
  case (1 keys t left right)
  show ?case
  proof (cases "left < right")
    case False
    with "1.prems" have "left = right" by simp
    with "1.prems" show ?thesis
      by (simp add: binarySearch_loop.simps [of keys t right right])
  next
    case True
    define mid where "mid = (left + right) div 2"
    from True have mid: "left \<le> mid" "mid < right"
      by (simp_all add: mid_def)
    with "1.prems" have at: "at_index keys mid = Some (keys ! mid)"
      by (simp add: at_index_def)
    show ?thesis
    proof (cases "keys ! mid < t")
      case less: True
      have below: "\<forall>j<mid + 1. keys ! j < t"
      proof (intro allI impI)
        fix j assume "j < mid + 1"
        then have "j \<le> mid" by simp
        with \<open>sorted keys\<close> mid "1.prems"(3) have "keys ! j \<le> keys ! mid"
          by (simp add: sorted_nth_mono)
        with less show "keys ! j < t" by simp
      qed
      have step: "binarySearch_loop keys t left right = binarySearch_loop keys t (mid + 1) right"
        using True less at by (simp add: binarySearch_loop.simps [of keys t left right] mid_def)
      have "binarySearch_loop keys t (mid + 1) right \<le> length keys \<and>
         (\<forall>j<binarySearch_loop keys t (mid + 1) right. keys ! j < t) \<and>
         (\<forall>j. binarySearch_loop keys t (mid + 1) right \<le> j \<and> j < length keys \<longrightarrow> t \<le> keys ! j)"
      proof (rule "1.IH"(1) [OF True mid_def])
        show "case at_index keys mid of None \<Rightarrow> False | Some v \<Rightarrow> v < t"
          using at less by simp
        show "mid + 1 \<le> right" using mid by simp
      qed (use "1.prems" below in simp_all)
      with step show ?thesis by simp
    next
      case geq: False
      have above: "\<forall>j. mid \<le> j \<and> j < length keys \<longrightarrow> t \<le> keys ! j"
      proof (intro allI impI)
        fix j assume j: "mid \<le> j \<and> j < length keys"
        with \<open>sorted keys\<close> have "keys ! mid \<le> keys ! j"
          by (simp add: sorted_nth_mono)
        with geq show "t \<le> keys ! j" by simp
      qed
      have step: "binarySearch_loop keys t left right = binarySearch_loop keys t left mid"
        using True geq at by (simp add: binarySearch_loop.simps [of keys t left right] mid_def)
      have "binarySearch_loop keys t left mid \<le> length keys \<and>
         (\<forall>j<binarySearch_loop keys t left mid. keys ! j < t) \<and>
         (\<forall>j. binarySearch_loop keys t left mid \<le> j \<and> j < length keys \<longrightarrow> t \<le> keys ! j)"
      proof (rule "1.IH"(2) [OF True mid_def])
        show "\<not> (case at_index keys mid of None \<Rightarrow> False | Some v \<Rightarrow> v < t)"
          using at geq by simp
        show "left \<le> mid" using mid by simp
        show "mid \<le> length keys" using mid "1.prems" by simp
      qed (use "1.prems" above in simp_all)
      with step show ?thesis by simp
    qed
  qed
qed

lemma binarySearch_loop_first_index:
  assumes "sorted keys"
  shows "binarySearch_loop keys t 0 (length keys) =
           (case first_index_ge keys t of Some i \<Rightarrow> i | None \<Rightarrow> length keys)"
proof -
  define r where "r = binarySearch_loop keys t 0 (length keys)"
  have b: "r \<le> length keys" "\<forall>j<r. keys ! j < t"
    "\<forall>j. r \<le> j \<and> j < length keys \<longrightarrow> t \<le> keys ! j"
  proof -
    have "binarySearch_loop keys t 0 (length keys) \<le> length keys \<and>
      (\<forall>j<binarySearch_loop keys t 0 (length keys). keys ! j < t) \<and>
      (\<forall>j. binarySearch_loop keys t 0 (length keys) \<le> j \<and> j < length keys \<longrightarrow> t \<le> keys ! j)"
      by (rule binarySearch_loop_bounds [OF assms]) auto
    then show "r \<le> length keys" "\<forall>j<r. keys ! j < t"
      "\<forall>j. r \<le> j \<and> j < length keys \<longrightarrow> t \<le> keys ! j"
      by (simp_all add: r_def)
  qed
  show ?thesis
  proof (cases "r < length keys")
    case True
    with b have "first_index_ge keys t = Some r"
      by (simp add: first_index_ge_Some)
    then show ?thesis by (simp add: r_def)
  next
    case False
    with b have "r = length keys" by simp
    with b have "first_index_ge keys t = None"
      by (simp add: first_index_ge_None)
    with \<open>r = length keys\<close> show ?thesis by (simp add: r_def)
  qed
qed

lemma binarySearch_le: "ring_ok s \<Longrightarrow> binarySearch s t \<le> length (sortedKeys s)"
proof -
  assume "ring_ok s"
  then have "sorted (sortedKeys s)" by (simp add: ring_ok_def)
  then have "binarySearch_loop (sortedKeys s) t 0 (length (sortedKeys s)) \<le> length (sortedKeys s) \<and>
      (\<forall>j<binarySearch_loop (sortedKeys s) t 0 (length (sortedKeys s)). sortedKeys s ! j < t) \<and>
      (\<forall>j. binarySearch_loop (sortedKeys s) t 0 (length (sortedKeys s)) \<le> j \<and>
           j < length (sortedKeys s) \<longrightarrow> t \<le> sortedKeys s ! j)"
    by (rule binarySearch_loop_bounds) auto
  then show ?thesis by (simp add: binarySearch_def)
qed

lemma ring_ok_index:
  assumes "ring_ok s" and "idx < length (sortedKeys s)"
  shows "\<exists>node. node_at s idx = Some node \<and> map_of (ring s) (sortedKeys s ! idx) = Some node \<and>
           node \<noteq> [] \<and> node \<in> snd ` set (ring s)"
proof -
  from assms have "sortedKeys s ! idx \<in> set (sort (map fst (ring s)))"
    by (metis nth_mem ring_ok_def)
  then have "sortedKeys s ! idx \<in> fst ` set (ring s)" by simp
  then obtain node where n: "map_of (ring s) (sortedKeys s ! idx) = Some node"
    by (metis domD dom_map_of_conv_image_fst)
  then have "(sortedKeys s ! idx, node) \<in> set (ring s)"
    by (rule map_of_SomeD)
  then have "node \<in> snd ` set (ring s)" by force
  with assms(1) have "node \<noteq> []"
    by (auto simp: ring_ok_def)
  with n \<open>node \<in> snd ` set (ring s)\<close> assms(2) show ?thesis
    by (simp add: node_at_def at_index_def)
qed

lemma ring_ok_length: "ring_ok s \<Longrightarrow> length (sortedKeys s) = length (ring s)"
  by (simp add: ring_ok_def)

lemma start_index_wrap:
  assumes "ring_ok s" and "ring s \<noteq> []"
  shows "(if binarySearch s t \<ge> length (sortedKeys s) then 0 else binarySearch s t)
           = start_index s t"
    and "start_index s t < length (sortedKeys s)"
proof -
  from assms(1) have "sorted (sortedKeys s)" by (simp add: ring_ok_def)
  then have bs: "binarySearch s t =
      (case first_index_ge (sortedKeys s) t of Some i \<Rightarrow> i | None \<Rightarrow> length (sortedKeys s))"
    by (simp add: binarySearch_def binarySearch_loop_first_index)
  from assms have pos: "0 < length (sortedKeys s)"
    by (simp add: ring_ok_length)
  show "(if binarySearch s t \<ge> length (sortedKeys s) then 0 else binarySearch s t)
           = start_index s t"
  proof (cases "first_index_ge (sortedKeys s) t")
    case None
    then show ?thesis by (simp add: bs start_index_def)
  next
    case (Some i)
    then have "i < length (sortedKeys s)" by (simp add: first_index_ge_Some)
    with Some show ?thesis by (simp add: bs start_index_def)
  qed
  show "start_index s t < length (sortedKeys s)"
  proof (cases "first_index_ge (sortedKeys s) t")
    case None
    with pos show ?thesis by (simp add: start_index_def)
  next
    case (Some i)
    then have "i < length (sortedKeys s)" by (simp add: first_index_ge_Some)
    with Some show ?thesis by (simp add: start_index_def)
  qed
qed

text \<open>
  C1: on a ring with at least one position and for a valid key, \<open>binarySearch\<close> returns
  the first index of the sorted index whose position is \<open>\<ge> hash(key)\<close>, or the length
  of the index when there is none, and \<open>get\<close> returns the node the entry mapping holds
  for the position at that index, or at index 0 when there is none.
\<close>

theorem get_successor:
  assumes "run h cs (HashOrbit options) = Inr s" and "ring s \<noteq> []"
    and "key \<noteq> []" and "length key \<le> 1000"
  shows "binarySearch s (h key) =
           (case first_index_ge (sortedKeys s) (h key) of
              Some i \<Rightarrow> i | None \<Rightarrow> length (sortedKeys s)) \<and>
         (\<exists>node. map_of (ring s)
                   (sortedKeys s ! (case first_index_ge (sortedKeys s) (h key) of
                                      Some i \<Rightarrow> i | None \<Rightarrow> 0)) = Some node \<and>
                 get h s key = Inr (Some node))"
proof -
  have ok: "ring_ok s"
    using ring_ok_HashOrbit assms(1) by (rule ring_ok_run)
  then have "sorted (sortedKeys s)" by (simp add: ring_ok_def)
  then have bs: "binarySearch s (h key) =
      (case first_index_ge (sortedKeys s) (h key) of
         Some i \<Rightarrow> i | None \<Rightarrow> length (sortedKeys s))"
    by (simp add: binarySearch_def binarySearch_loop_first_index)
  have g: "get h s key = Inr (node_at s (start_index s (h key)))"
    using assms(2-4) start_index_wrap(1) [OF ok assms(2), of "h key"]
    by (simp add: get_def validateIdentifier_ok Let_def)
  from ring_ok_index [OF ok start_index_wrap(2) [OF ok assms(2)], of "h key"]
  obtain node where "node_at s (start_index s (h key)) = Some node"
    and "map_of (ring s) (sortedKeys s ! start_index s (h key)) = Some node"
    by blast
  with g bs show ?thesis by (simp add: start_index_def)
qed

theorem get_successor_witness:
  "run poly_hash32 [Add ''a'', Add ''b''] (HashOrbit (Some 2)) = Inr example_ring \<and>
   ring example_ring \<noteq> [] \<and> ''key'' \<noteq> [] \<and> length ''key'' \<le> 1000 \<and>
   first_index_ge (sortedKeys example_ring) (poly_hash32 ''key'') = None \<and>
   binarySearch example_ring (poly_hash32 ''key'') = length (sortedKeys example_ring) \<and>
   map_of (ring example_ring) (sortedKeys example_ring ! 0) = Some ''a'' \<and>
   get poly_hash32 example_ring ''key'' = Inr (Some ''a'')"
proof -
  have ne: "ring example_ring \<noteq> []"
    by (simp add: example_ring_def)
  have none: "first_index_ge (sortedKeys example_ring) (poly_hash32 ''key'') = None"
    by code_simp
  have first: "map_of (ring example_ring) (sortedKeys example_ring ! 0) = Some ''a''"
    by (simp add: example_ring_def)
  show ?thesis
    using get_successor [OF run_example ne, of "''key''"] run_example ne none first
    by simp
qed

section \<open>The replica walk of getN\<close>

lemma set_Set_add [simp]: "set (Set_add x acc) = insert x (set acc)"
  by (auto simp: Set_add_def)

lemma getN_loop_stop:
  "\<not> (i < length (sortedKeys s) \<and> int (length res) < c) \<Longrightarrow>
     getN_loop s c i idx seen res = res"
  by (subst getN_loop.simps) auto

lemma getN_loop_fresh:
  "i < length (sortedKeys s) \<Longrightarrow> int (length res) < c \<Longrightarrow>
   node_at s (wrap_index s idx) = Some node \<Longrightarrow> node \<noteq> [] \<Longrightarrow> node \<notin> set seen \<Longrightarrow>
     getN_loop s c i idx seen res =
       getN_loop s c (i + 1) (wrap_index s idx + 1) (Set_add node seen) (res @ [node])"
  by (subst getN_loop.simps) (simp add: wrap_index_def)

lemma getN_loop_skip:
  "i < length (sortedKeys s) \<Longrightarrow> int (length res) < c \<Longrightarrow>
   (case node_at s (wrap_index s idx) of None \<Rightarrow> True
    | Some node \<Rightarrow> node = [] \<or> node \<in> set seen) \<Longrightarrow>
     getN_loop s c i idx seen res = getN_loop s c (i + 1) (wrap_index s idx + 1) seen res"
  by (subst getN_loop.simps) (auto simp: wrap_index_def split: option.splits)

lemma getN_loop_prefix: "\<exists>ys. getN_loop s c i idx seen res = res @ ys"
proof (induction s c i idx seen res rule: getN_loop.induct)
  case (1 s c i idx seen res)
  show ?case
  proof (cases "i < length (sortedKeys s) \<and> int (length res) < c")
    case False
    then show ?thesis by (simp add: getN_loop_stop)
  next
    case True
    define idx' where "idx' = (if idx \<ge> length (sortedKeys s) then 0 else idx)"
    then have w: "wrap_index s idx = idx'" by (simp add: wrap_index_def)
    show ?thesis
    proof (cases "node_at s idx'")
      case None
      with True w have "getN_loop s c i idx seen res = getN_loop s c (i + 1) (idx' + 1) seen res"
        using getN_loop_skip [where s = s and i = i and idx = idx and seen = seen and res = res and c = c] by simp
      with "1.IH"(1) [OF True idx'_def None] show ?thesis by simp
    next
      case (Some node)
      show ?thesis
      proof (cases "node \<noteq> [] \<and> node \<notin> set seen")
        case fresh: True
        from "1.IH"(2) [OF True idx'_def Some fresh]
        obtain ys where "getN_loop s c (i + 1) (idx' + 1) (Set_add node seen) (res @ [node])
            = (res @ [node]) @ ys" by blast
        moreover have "getN_loop s c i idx seen res =
            getN_loop s c (i + 1) (idx' + 1) (Set_add node seen) (res @ [node])"
          using getN_loop_fresh [where s = s and i = i and idx = idx and seen = seen and res = res and c = c
              and node = node] True Some fresh w by simp
        ultimately show ?thesis by simp
      next
        case old: False
        with True Some w
        have "getN_loop s c i idx seen res = getN_loop s c (i + 1) (idx' + 1) seen res"
          using getN_loop_skip [where s = s and i = i and idx = idx and seen = seen and res = res and c = c] by auto
        with "1.IH"(3) [OF True idx'_def Some old] show ?thesis by simp
      qed
    qed
  qed
qed

lemma getN_loop_distinct:
  "distinct res \<Longrightarrow> set res \<subseteq> set seen \<Longrightarrow> distinct (getN_loop s c i idx seen res)"
proof (induction s c i idx seen res rule: getN_loop.induct)
  case (1 s c i idx seen res)
  show ?case
  proof (cases "i < length (sortedKeys s) \<and> int (length res) < c")
    case False
    with "1.prems" show ?thesis by (simp add: getN_loop_stop)
  next
    case True
    define idx' where "idx' = (if idx \<ge> length (sortedKeys s) then 0 else idx)"
    then have w: "wrap_index s idx = idx'" by (simp add: wrap_index_def)
    show ?thesis
    proof (cases "node_at s idx'")
      case None
      with True w have "getN_loop s c i idx seen res = getN_loop s c (i + 1) (idx' + 1) seen res"
        using getN_loop_skip [where s = s and i = i and idx = idx and seen = seen and res = res and c = c] by simp
      with "1.prems" "1.IH"(1) [OF True idx'_def None] show ?thesis by simp
    next
      case (Some node)
      show ?thesis
      proof (cases "node \<noteq> [] \<and> node \<notin> set seen")
        case fresh: True
        with "1.prems" have "distinct (res @ [node])" "set (res @ [node]) \<subseteq> set (Set_add node seen)"
          by auto
        with "1.IH"(2) [OF True idx'_def Some fresh]
        have "distinct (getN_loop s c (i + 1) (idx' + 1) (Set_add node seen) (res @ [node]))"
          by blast
        moreover have "getN_loop s c i idx seen res =
            getN_loop s c (i + 1) (idx' + 1) (Set_add node seen) (res @ [node])"
          using getN_loop_fresh [where s = s and i = i and idx = idx and seen = seen and res = res and c = c
              and node = node] True Some fresh w by simp
        ultimately show ?thesis by simp
      next
        case old: False
        with True Some w
        have "getN_loop s c i idx seen res = getN_loop s c (i + 1) (idx' + 1) seen res"
          using getN_loop_skip [where s = s and i = i and idx = idx and seen = seen and res = res and c = c] by auto
        with "1.prems" "1.IH"(3) [OF True idx'_def Some old] show ?thesis by simp
      qed
    qed
  qed
qed

text \<open>
  C2: on a ring with at least one position, for a valid key and a count of at least 1,
  the first element of \<open>getN(key, count)\<close> is the node \<open>get(key)\<close> returns.
\<close>

theorem getN_first_is_get:
  assumes "run h cs (HashOrbit options) = Inr s" and "ring s \<noteq> []"
    and "key \<noteq> []" and "length key \<le> 1000" and "1 \<le> count"
  shows "\<exists>node rest. get h s key = Inr (Some node) \<and> getN h s key count = Inr (node # rest)"
proof -
  have ok: "ring_ok s"
    using ring_ok_HashOrbit assms(1) by (rule ring_ok_run)
  define start where "start = start_index s (h key)"
  have wrap: "(if binarySearch s (h key) \<ge> length (sortedKeys s) then 0
               else binarySearch s (h key)) = start"
    and start: "start < length (sortedKeys s)"
    using start_index_wrap [OF ok assms(2)] by (simp_all add: start_def)
  from ring_ok_index [OF ok start] obtain node
    where node: "node_at s start = Some node" "node \<noteq> []" by blast
  have g: "get h s key = Inr (Some node)"
    using assms(2-4) wrap node by (simp add: get_def validateIdentifier_ok Let_def)
  obtain ys where "getN_loop s count (0 + 1) (start + 1) (Set_add node []) ([] @ [node])
      = ([] @ [node]) @ ys"
    using getN_loop_prefix by blast
  moreover have "getN_loop s count 0 (binarySearch s (h key)) [] [] =
      getN_loop s count (0 + 1) (wrap_index s (binarySearch s (h key)) + 1)
        (Set_add node []) ([] @ [node])"
  proof (rule getN_loop_fresh)
    show "0 < length (sortedKeys s)" using start by (cases "sortedKeys s") auto
    show "int (length ([]::string list)) < count" using assms(5) by simp
    show "node_at s (wrap_index s (binarySearch s (h key))) = Some node"
      using wrap node by (simp add: wrap_index_def)
  qed (use node in simp_all)
  ultimately have "getN_loop s count 0 (binarySearch s (h key)) [] [] = node # ys"
    using wrap by (simp add: wrap_index_def)
  then have "getN h s key count = Inr (node # ys)"
    using assms(2-5) by (simp add: getN_def validateIdentifier_ok)
  with g show ?thesis by blast
qed

theorem getN_first_is_get_witness:
  "run poly_hash32 [Add ''a'', Add ''b''] (HashOrbit (Some 2)) = Inr example_ring \<and>
   ring example_ring \<noteq> [] \<and> ''key'' \<noteq> [] \<and> length ''key'' \<le> 1000 \<and> (1::int) \<le> 2 \<and>
   (\<exists>node rest. get poly_hash32 example_ring ''key'' = Inr (Some node) \<and>
      getN poly_hash32 example_ring ''key'' 2 = Inr (node # rest))"
proof -
  have ne: "ring example_ring \<noteq> []"
    by (simp add: example_ring_def)
  show ?thesis
    using getN_first_is_get [OF run_example ne, of "''key''" 2] run_example ne
    by simp
qed

lemma upt_shift: "i < n \<Longrightarrow> map f [0..<n - i] = f 0 # map (\<lambda>j. f (Suc j)) [0..<n - (i + 1)]"
proof -
  assume "i < n"
  then obtain k where k: "n - i = Suc k" by (metis Suc_diff_Suc)
  then have "n - (i + 1) = k" by simp
  moreover have "[0..<Suc k] = 0 # map Suc [0..<k]"
    by (simp add: upt_conv_Cons map_Suc_upt del: upt_Suc)
  ultimately show ?thesis using k by (simp add: comp_def del: upt_Suc)
qed

lemma getN_loop_collect:
  assumes "set seen = set res" and "idx \<le> length (sortedKeys s)"
  shows "getN_loop s c i idx seen res =
     collect c (map (\<lambda>j. node_at s ((idx + j) mod length (sortedKeys s)))
                  [0..<length (sortedKeys s) - i]) res"
  using assms
proof (induction s c i idx seen res rule: getN_loop.induct)
  case (1 s c i idx seen res)
  let ?n = "length (sortedKeys s)"
  show ?case
  proof (cases "i < ?n")
    case False
    then show ?thesis by (simp add: getN_loop_stop)
  next
    case i: True
    define idx' where "idx' = (if idx \<ge> ?n then 0 else idx)"
    then have w: "wrap_index s idx = idx'" by (simp add: wrap_index_def)
    from i "1.prems" have m: "idx' = idx mod ?n" "idx' + 1 \<le> ?n"
      by (auto simp: idx'_def)
    have shift: "(idx + Suc j) mod ?n = (idx' + 1 + j) mod ?n" for j
      by (metis m(1) Suc_eq_plus1 add.assoc add.commute mod_add_left_eq)
    have ws: "map (\<lambda>j. node_at s ((idx + j) mod ?n)) [0..<?n - i] =
        node_at s idx' # map (\<lambda>j. node_at s ((idx' + 1 + j) mod ?n)) [0..<?n - (i + 1)]"
      using upt_shift [OF i, of "\<lambda>j. node_at s ((idx + j) mod ?n)"] m(1) shift by simp
    show ?thesis
    proof (cases "int (length res) < c")
      case False
      then show ?thesis by (simp add: getN_loop_stop ws)
    next
      case c: True
      from i c have True: "i < ?n \<and> int (length res) < c" by simp
      show ?thesis
      proof (cases "node_at s idx'")
        case None
        with True w have "getN_loop s c i idx seen res = getN_loop s c (i + 1) (idx' + 1) seen res"
          using getN_loop_skip [where s = s and i = i and idx = idx and seen = seen
              and res = res and c = c] by simp
        with "1.IH"(1) [OF True idx'_def None "1.prems"(1) m(2)] None c show ?thesis
          by (simp add: ws)
      next
        case (Some node)
        show ?thesis
        proof (cases "node \<noteq> [] \<and> node \<notin> set seen")
          case fresh: True
          have "set (Set_add node seen) = set (res @ [node])"
            using "1.prems"(1) by simp
          from "1.IH"(2) [OF True idx'_def Some fresh this m(2)]
          have "getN_loop s c (i + 1) (idx' + 1) (Set_add node seen) (res @ [node]) =
            collect c (map (\<lambda>j. node_at s ((idx' + 1 + j) mod ?n)) [0..<?n - (i + 1)])
              (res @ [node])" .
          moreover have "getN_loop s c i idx seen res =
              getN_loop s c (i + 1) (idx' + 1) (Set_add node seen) (res @ [node])"
            using getN_loop_fresh [where s = s and i = i and idx = idx and seen = seen
                and res = res and c = c and node = node] True Some fresh w by simp
          ultimately show ?thesis
            using Some fresh c "1.prems"(1) by (simp add: ws)
        next
          case old: False
          with True Some w
          have "getN_loop s c i idx seen res = getN_loop s c (i + 1) (idx' + 1) seen res"
            using getN_loop_skip [where s = s and i = i and idx = idx and seen = seen
                and res = res and c = c] by auto
          with "1.IH"(3) [OF True idx'_def Some old "1.prems"(1) m(2)] Some old c "1.prems"(1)
          show ?thesis by (auto simp: ws)
        qed
      qed
    qed
  qed
qed

lemma collect_complete:
  assumes "distinct res" and "int (card (set res \<union> {x. Some x \<in> set ws})) < c"
  shows "set (collect c ws res) = set res \<union> {x. Some x \<in> set ws \<and> x \<noteq> []}"
  using assms
proof (induction ws arbitrary: res)
  case Nil
  show ?case by simp
next
  case (Cons w ws)
  have fin: "finite (set res \<union> {x. Some x \<in> set (w # ws)})"
  proof -
    have "{x. Some x \<in> set (w # ws)} \<subseteq> the ` set (w # ws)" by force
    then have "finite {x. Some x \<in> set (w # ws)}"
      by (rule finite_subset) simp
    then show ?thesis by simp
  qed
  have "length res = card (set res)"
    using Cons.prems(1) by (simp add: distinct_card)
  also have "\<dots> \<le> card (set res \<union> {x. Some x \<in> set (w # ws)})"
    using fin by (intro card_mono) auto
  finally have c: "int (length res) < c" using Cons.prems(2) by simp
  have smaller: "int (card (set res \<union> {x. Some x \<in> set ws})) < c"
  proof -
    have "card (set res \<union> {x. Some x \<in> set ws}) \<le> card (set res \<union> {x. Some x \<in> set (w # ws)})"
      using fin by (intro card_mono) auto
    with Cons.prems(2) show ?thesis by simp
  qed
  show ?case
  proof (cases w)
    case None
    with c Cons.IH [OF Cons.prems(1) smaller] show ?thesis by auto
  next
    case (Some node)
    show ?thesis
    proof (cases "node \<noteq> [] \<and> node \<notin> set res")
      case True
      have eq: "set (res @ [node]) \<union> {x. Some x \<in> set ws} = set res \<union> {x. Some x \<in> set (w # ws)}"
        using Some by auto
      have "set (collect c ws (res @ [node])) =
          set (res @ [node]) \<union> {x. Some x \<in> set ws \<and> x \<noteq> []}"
      proof (rule Cons.IH)
        show "distinct (res @ [node])" using Cons.prems(1) True by simp
        show "int (card (set (res @ [node]) \<union> {x. Some x \<in> set ws})) < c"
          using Cons.prems(2) by (simp only: eq)
      qed
      with c Some True show ?thesis by auto
    next
      case False
      with c Some Cons.IH [OF Cons.prems(1) smaller] show ?thesis by auto
    qed
  qed
qed

lemma walk_nodes:
  assumes "ring_ok s"
  shows "map (\<lambda>j. node_at s ((start + j) mod length (sortedKeys s))) [0..<length (sortedKeys s)]
           = map (map_of (ring s)) (rotate start (sortedKeys s))"
proof (rule nth_equalityI)
  show "length (map (\<lambda>j. node_at s ((start + j) mod length (sortedKeys s)))
            [0..<length (sortedKeys s)])
      = length (map (map_of (ring s)) (rotate start (sortedKeys s)))"
    by simp
next
  fix i
  assume "i < length (map (\<lambda>j. node_at s ((start + j) mod length (sortedKeys s)))
            [0..<length (sortedKeys s)])"
  then have i: "i < length (sortedKeys s)" by simp
  then have "0 < length (sortedKeys s)" by linarith
  then have "(start + i) mod length (sortedKeys s) < length (sortedKeys s)" by simp
  then have "node_at s ((start + i) mod length (sortedKeys s)) =
      map_of (ring s) (sortedKeys s ! ((start + i) mod length (sortedKeys s)))"
    by (simp add: node_at_def at_index_def)
  with i show "map (\<lambda>j. node_at s ((start + j) mod length (sortedKeys s)))
            [0..<length (sortedKeys s)] ! i
      = map (map_of (ring s)) (rotate start (sortedKeys s)) ! i"
    by (simp add: nth_rotate)
qed

lemma walk_values:
  assumes "ring_ok s"
  shows "{x. Some x \<in> set (map (map_of (ring s)) (rotate start (sortedKeys s)))}
           = snd ` set (ring s)"
proof -
  from assms have d: "distinct (map fst (ring s))"
    and sk: "set (sortedKeys s) = fst ` set (ring s)"
    by (simp_all add: ring_ok_def)
  show ?thesis
  proof (intro set_eqI iffI)
    fix x assume "x \<in> {x. Some x \<in> set (map (map_of (ring s)) (rotate start (sortedKeys s)))}"
    then obtain p where "map_of (ring s) p = Some x" by (auto simp: sk)
    then have "(p, x) \<in> set (ring s)" by (rule map_of_SomeD)
    then show "x \<in> snd ` set (ring s)" by force
  next
    fix x assume "x \<in> snd ` set (ring s)"
    then obtain p where p: "(p, x) \<in> set (ring s)" by auto
    with d have "map_of (ring s) p = Some x" by simp
    moreover from p have "p \<in> fst ` set (ring s)" by force
    ultimately have "Some x \<in> map_of (ring s) ` fst ` set (ring s)"
      by (metis imageI)
    then show "x \<in> {x. Some x \<in> set (map (map_of (ring s)) (rotate start (sortedKeys s)))}"
      by (simp add: sk)
  qed
qed

lemma size_orbit_card: "size_orbit s = card (snd ` set (ring s))"
proof -
  have "length (new_Set (map snd (ring s))) = card (set (new_Set (map snd (ring s))))"
    using distinct_card [of "new_Set (map snd (ring s))"] by simp
  then show ?thesis by (simp add: size_orbit_def getUniqueNodes_def)
qed

text \<open>
  C3: for every ring, valid key and count, the elements of \<open>getN(key, count)\<close> are
  pairwise distinct, and when the count exceeds \<open>size\<close> the result holds exactly the
  nodes of the ring and its length is \<open>size\<close>.
\<close>

theorem getN_distinct_complete:
  assumes "run h cs (HashOrbit options) = Inr s"
    and "key \<noteq> []" and "length key \<le> 1000"
  shows "\<exists>xs. getN h s key count = Inr xs \<and> distinct xs \<and>
           (int (size_orbit s) < count \<longrightarrow> set xs = set (nodes s) \<and> length xs = size_orbit s)"
proof (cases "ring s = [] \<or> count \<le> 0")
  case True
  then have "getN h s key count = Inr []"
    using assms(2,3) by (simp add: getN_def validateIdentifier_ok)
  moreover have "set [] = set (nodes s) \<and> length ([]::string list) = size_orbit s"
    if "int (size_orbit s) < count"
  proof -
    from that True have "ring s = []" by auto
    then show ?thesis
      by (simp add: nodes_def size_orbit_def getUniqueNodes_def new_Set_def)
  qed
  ultimately show ?thesis by simp
next
  case False
  have ok: "ring_ok s"
    using ring_ok_HashOrbit assms(1) by (rule ring_ok_run)
  define start where "start = binarySearch s (h key)"
  define xs where "xs = getN_loop s count 0 start [] []"
  have g: "getN h s key count = Inr xs"
    using False assms(2,3) by (simp add: getN_def validateIdentifier_ok xs_def start_def)
  have dist: "distinct xs"
    unfolding xs_def by (rule getN_loop_distinct) simp_all
  have full: "set xs = set (nodes s) \<and> length xs = size_orbit s"
    if big: "int (size_orbit s) < count"
  proof -
    have "xs = collect count
        (map (\<lambda>j. node_at s ((start + j) mod length (sortedKeys s)))
           [0..<length (sortedKeys s) - 0]) []"
      unfolding xs_def
      by (rule getN_loop_collect) (simp_all add: start_def binarySearch_le [OF ok])
    then have xs: "xs = collect count (map (map_of (ring s)) (rotate start (sortedKeys s))) []"
      by (simp add: walk_nodes [OF ok])
    have "set xs = set [] \<union>
        {x. Some x \<in> set (map (map_of (ring s)) (rotate start (sortedKeys s))) \<and> x \<noteq> []}"
      unfolding xs
    proof (rule collect_complete)
      show "int (card (set [] \<union>
          {x. Some x \<in> set (map (map_of (ring s)) (rotate start (sortedKeys s)))})) < count"
        using big by (simp only: walk_values [OF ok] size_orbit_card) simp
    qed simp
    also have "\<dots> = {x \<in> snd ` set (ring s). x \<noteq> []}"
      using walk_values [OF ok, of start] by auto
    also have "\<dots> = snd ` set (ring s)"
      using ok by (auto simp: ring_ok_def)
    finally have s: "set xs = set (nodes s)"
      by (simp add: nodes_def getUniqueNodes_def)
    have "length xs = card (set xs)"
      using dist by (simp add: distinct_card)
    also have "\<dots> = size_orbit s"
      by (simp add: s size_orbit_card nodes_def getUniqueNodes_def)
    finally show ?thesis using s by simp
  qed
  from g dist full show ?thesis by simp
qed

theorem getN_distinct_complete_witness:
  "run poly_hash32 [Add ''a'', Add ''b''] (HashOrbit (Some 2)) = Inr example_ring \<and>
   ''key'' \<noteq> [] \<and> length ''key'' \<le> 1000 \<and> int (size_orbit example_ring) < 5 \<and>
   (\<exists>xs. getN poly_hash32 example_ring ''key'' 5 = Inr xs \<and> distinct xs \<and>
      set xs = set (nodes example_ring) \<and> length xs = size_orbit example_ring)"
proof -
  have big: "int (size_orbit example_ring) < 5"
    by code_simp
  show ?thesis
    using getN_distinct_complete [OF run_example, of "''key''" 5] run_example big
    by simp
qed

section \<open>Serialisation round trip\<close>

lemma map_of_fold_delete:
  "map_of (fold (\<lambda>j. AList.delete (f j)) js m) p =
     (if p \<in> f ` set js then None else map_of m p)"
  by (induction js arbitrary: m) (auto simp: delete_conv')

lemma map_of_add_loop:
  "map_of (add_loop h node reps 0 m) p =
     (if \<exists>i<nat reps. p = h (replica_key node i) then Some node else map_of m p)"
  by (auto simp: add_loop_fold map_of_fold_update)

lemma map_of_remove_loop:
  "map_of (remove_loop h node reps 0 m) p =
     (if \<exists>i<nat reps. p = h (replica_key node i) then None else map_of m p)"
  by (auto simp: remove_loop_fold map_of_fold_delete)

lemma add_state:
  "add h node s = Inr s' \<Longrightarrow>
     node \<noteq> [] \<and> length node \<le> 1000 \<and> replicas s' = replicas s \<and>
     ring s' = add_loop h node (replicas s) 0 (ring s)"
  by (auto simp: add_def validateIdentifier_def Let_def split: if_splits)

lemma remove_state:
  "remove h node s = Inr s' \<Longrightarrow>
     node \<noteq> [] \<and> length node \<le> 1000 \<and> replicas s' = replicas s \<and>
     ring s' = remove_loop h node (replicas s) 0 (ring s)"
  by (auto simp: remove_def validateIdentifier_def Let_def split: if_splits)

lemma collision_freeD:
  assumes "collision_free h reps ns" and "n \<in> set ns" and "m \<in> set ns"
    and "i < nat reps" and "j < nat reps" and "h (replica_key n i) = h (replica_key m j)"
  shows "n = m"
proof -
  from assms(4,5) have "i \<in> {0..<nat reps}" "j \<in> {0..<nat reps}" by simp_all
  with assms(1,2,3,6) show ?thesis unfolding collision_free_def by blast
qed

lemma owned_add:
  assumes cf: "collision_free h (replicas s) ns" and node: "node \<in> set ns"
    and vals: "snd ` set (ring s) \<subseteq> set ns" and own: "owned h s"
    and add: "add h node s = Inr s'"
  shows "owned h s' \<and> snd ` set (ring s') \<subseteq> set ns"
proof -
  let ?r = "replicas s"
  from add_state [OF add] have reps: "replicas s' = ?r"
    and m': "map_of (ring s') = (\<lambda>p. if \<exists>i<nat ?r. p = h (replica_key node i)
                                    then Some node else map_of (ring s) p)"
    by (auto simp: map_of_add_loop)
  have in_ns: "n \<in> set ns" if "map_of (ring s) p = Some n" for p n
    using that vals by (metis map_of_SomeD image_eqI snd_conv subsetD)
  have "owned h s'"
    unfolding owned_def reps
  proof (intro allI impI)
    fix p n assume pn: "map_of (ring s') p = Some n"
    show "(\<exists>i<nat ?r. p = h (replica_key n i)) \<and>
          (\<forall>j<nat ?r. map_of (ring s') (h (replica_key n j)) = Some n)"
    proof (cases "\<exists>i<nat ?r. p = h (replica_key node i)")
      case True
      with pn have "n = node" by (simp add: m')
      with True show ?thesis by (auto simp: m')
    next
      case False
      with pn have old: "map_of (ring s) p = Some n" by (simp add: m')
      with own have ex: "\<exists>i<nat ?r. p = h (replica_key n i)"
        and all: "\<forall>j<nat ?r. map_of (ring s) (h (replica_key n j)) = Some n"
        unfolding owned_def by blast+
      have "map_of (ring s') (h (replica_key n j)) = Some n" if j: "j < nat ?r" for j
      proof (cases "\<exists>i<nat ?r. h (replica_key n j) = h (replica_key node i)")
        case True
        then obtain i where "i < nat ?r" "h (replica_key n j) = h (replica_key node i)" by blast
        with cf in_ns [OF old] node j have "n = node"
          by (blast dest: collision_freeD)
        with True show ?thesis by (simp add: m')
      next
        case False
        with all j show ?thesis by (auto simp: m')
      qed
      with ex show ?thesis by blast
    qed
  qed
  moreover have "snd ` set (ring s') \<subseteq> set ns"
  proof
    fix n assume "n \<in> snd ` set (ring s')"
    then have "n \<in> snd ` set (add_loop h node ?r 0 (ring s))"
      using add_state [OF add] by simp
    then have "n \<in> insert node (snd ` set (ring s))"
      using values_fold_update [of "\<lambda>j. h (replica_key node j)" node "[0..<nat ?r]" "ring s"]
      by (auto simp: add_loop_fold)
    with node vals show "n \<in> set ns" by auto
  qed
  ultimately show ?thesis by simp
qed

lemma owned_remove:
  assumes cf: "collision_free h (replicas s) ns" and node: "node \<in> set ns"
    and vals: "snd ` set (ring s) \<subseteq> set ns" and own: "owned h s"
    and rem: "remove h node s = Inr s'"
  shows "owned h s' \<and> snd ` set (ring s') \<subseteq> set ns"
proof -
  let ?r = "replicas s"
  from remove_state [OF rem] have reps: "replicas s' = ?r"
    and m': "map_of (ring s') = (\<lambda>p. if \<exists>i<nat ?r. p = h (replica_key node i)
                                    then None else map_of (ring s) p)"
    by (auto simp: map_of_remove_loop)
  have in_ns: "n \<in> set ns" if "map_of (ring s) p = Some n" for p n
    using that vals by (metis map_of_SomeD image_eqI snd_conv subsetD)
  have "owned h s'"
    unfolding owned_def reps
  proof (intro allI impI)
    fix p n assume pn: "map_of (ring s') p = Some n"
    then have notin: "\<not> (\<exists>i<nat ?r. p = h (replica_key node i))"
      and old: "map_of (ring s) p = Some n"
      by (auto simp: m' split: if_splits)
    with own have ex: "\<exists>i<nat ?r. p = h (replica_key n i)"
      and all: "\<forall>j<nat ?r. map_of (ring s) (h (replica_key n j)) = Some n"
      unfolding owned_def by blast+
    have "n \<noteq> node" using ex notin by blast
    have "map_of (ring s') (h (replica_key n j)) = Some n" if j: "j < nat ?r" for j
    proof (cases "\<exists>i<nat ?r. h (replica_key n j) = h (replica_key node i)")
      case True
      then obtain i where "i < nat ?r" "h (replica_key n j) = h (replica_key node i)" by blast
      with cf in_ns [OF old] node j have "n = node"
        by (blast dest: collision_freeD)
      with \<open>n \<noteq> node\<close> show ?thesis by simp
    next
      case False
      with all j show ?thesis by (auto simp: m')
    qed
    with ex show "(\<exists>i<nat ?r. p = h (replica_key n i)) \<and>
          (\<forall>j<nat ?r. map_of (ring s') (h (replica_key n j)) = Some n)" by blast
  qed
  moreover have "snd ` set (ring s') \<subseteq> set ns"
  proof -
    have "set (ring s') \<subseteq> set (ring s)"
      using remove_state [OF rem]
        values_fold_delete [of "\<lambda>j. h (replica_key node j)" "[0..<nat ?r]" "ring s"]
      by (simp add: remove_loop_fold)
    with vals show ?thesis by blast
  qed
  ultimately show ?thesis by simp
qed

lemma perform_replicas: "perform h c s = Inr s' \<Longrightarrow> replicas s' = replicas s"
  by (cases c) (auto dest: add_state remove_state)

lemma run_replicas: "run h cs s = Inr s' \<Longrightarrow> replicas s' = replicas s"
proof (induction cs arbitrary: s)
  case Nil
  then show ?case by simp
next
  case (Cons c cs)
  from Cons.prems obtain s1 where "perform h c s = Inr s1" and "run h cs s1 = Inr s'"
    by (auto split: sum.splits)
  with Cons.IH [of s1] show ?case by (simp add: perform_replicas)
qed

lemma owned_run:
  assumes "collision_free h (replicas s) ns" and "set (map called_node cs) \<subseteq> set ns"
    and "snd ` set (ring s) \<subseteq> set ns" and "owned h s" and "run h cs s = Inr s'"
  shows "owned h s' \<and> replicas s' = replicas s"
  using assms
proof (induction cs arbitrary: s)
  case Nil
  then show ?case by simp
next
  case (Cons c cs)
  from Cons.prems(5) obtain s1 where p: "perform h c s = Inr s1" and r: "run h cs s1 = Inr s'"
    by (auto split: sum.splits)
  have reps: "replicas s1 = replicas s"
    using p by (rule perform_replicas)
  have "owned h s1 \<and> snd ` set (ring s1) \<subseteq> set ns"
  proof (cases c)
    case (Add node)
    with p Cons.prems show ?thesis
      using owned_add [of h s ns node s1] by simp
  next
    case (Remove node)
    with p Cons.prems show ?thesis
      using owned_remove [of h s ns node s1] by simp
  qed
  moreover have "collision_free h (replicas s1) ns" "set (map called_node cs) \<subseteq> set ns"
    using Cons.prems(1,2) reps by simp_all
  ultimately have "owned h s' \<and> replicas s' = replicas s1"
    using r Cons.IH [of s1] by blast
  with reps show ?case by simp
qed

lemma owned_HashOrbit: "owned h (HashOrbit options)"
  by (simp add: owned_def HashOrbit_def)

lemma add_all_submap:
  assumes "\<forall>n \<in> set ns. n \<noteq> [] \<and> length n \<le> 1000 \<and>
             (\<forall>j<nat (replicas s1). T (h (replica_key n j)) = Some n)"
    and "map_of (ring s1) \<subseteq>\<^sub>m T" and "ring_ok s1"
  shows "\<exists>s'. add_all h ns s1 = Inr s' \<and> map_of (ring s') \<subseteq>\<^sub>m T \<and> ring_ok s' \<and>
           replicas s' = replicas s1 \<and>
           (\<forall>n \<in> set ns. \<forall>j<nat (replicas s1). h (replica_key n j) \<in> dom (map_of (ring s'))) \<and>
           dom (map_of (ring s1)) \<subseteq> dom (map_of (ring s'))"
  using assms
proof (induction ns arbitrary: s1)
  case Nil
  then show ?case by simp
next
  case (Cons n ns)
  from Cons.prems(1) have valid: "n \<noteq> []" "length n \<le> 1000"
    and tn: "\<forall>j<nat (replicas s1). T (h (replica_key n j)) = Some n"
    by simp_all
  define s2 where "s2 = s1\<lparr>ring := add_loop h n (replicas s1) 0 (ring s1),
      sortedKeys := sort (map fst (add_loop h n (replicas s1) 0 (ring s1)))\<rparr>"
  have a: "add h n s1 = Inr s2"
    using valid by (simp add: add_def validateIdentifier_ok s2_def Let_def)
  have reps: "replicas s2 = replicas s1" by (simp add: s2_def)
  have m2: "map_of (ring s2) p = (if \<exists>i<nat (replicas s1). p = h (replica_key n i)
                                   then Some n else map_of (ring s1) p)" for p
    by (simp add: s2_def map_of_add_loop)
  have sub: "map_of (ring s2) \<subseteq>\<^sub>m T"
    unfolding map_le_def
  proof
    fix p assume "p \<in> dom (map_of (ring s2))"
    show "map_of (ring s2) p = T p"
    proof (cases "\<exists>i<nat (replicas s1). p = h (replica_key n i)")
      case True
      with tn show ?thesis by (auto simp: m2)
    next
      case False
      with \<open>p \<in> dom (map_of (ring s2))\<close> have "p \<in> dom (map_of (ring s1))"
        by (simp add: m2 dom_def)
      with Cons.prems(2) False show ?thesis
        by (auto simp: m2 map_le_def)
    qed
  qed
  have ok2: "ring_ok s2"
    using Cons.prems(3) a by (rule ring_ok_add)
  have "\<forall>n \<in> set ns. n \<noteq> [] \<and> length n \<le> 1000 \<and>
             (\<forall>j<nat (replicas s2). T (h (replica_key n j)) = Some n)"
    using Cons.prems(1) reps by simp
  from Cons.IH [OF this sub ok2] obtain s' where s': "add_all h ns s2 = Inr s'"
    "map_of (ring s') \<subseteq>\<^sub>m T" "ring_ok s'" "replicas s' = replicas s2"
    "\<forall>n \<in> set ns. \<forall>j<nat (replicas s2). h (replica_key n j) \<in> dom (map_of (ring s'))"
    "dom (map_of (ring s2)) \<subseteq> dom (map_of (ring s'))"
    by blast
  have grow: "dom (map_of (ring s1)) \<subseteq> dom (map_of (ring s2))"
    by (auto simp: m2)
  have "h (replica_key n j) \<in> dom (map_of (ring s'))" if j: "j < nat (replicas s1)" for j
  proof -
    from j tn have "T (h (replica_key n j)) = Some n" by simp
    have "map_of (ring s2) (h (replica_key n j)) = Some n"
      using j by (auto simp: m2)
    then have "h (replica_key n j) \<in> dom (map_of (ring s2))" by blast
    with s'(6) show ?thesis by blast
  qed
  moreover have "dom (map_of (ring s1)) \<subseteq> dom (map_of (ring s'))"
    using grow s'(6) by blast
  ultimately show ?case using s' a reps by simp
qed

lemma lookups_agree:
  assumes ok: "ring_ok s" and ok': "ring_ok s'" and m: "map_of (ring s') = map_of (ring s)"
  shows "get h s' key = get h s key" and "getN h s' key c = getN h s key c"
    and "set (nodes s') = set (nodes s)" and "size_orbit s' = size_orbit s"
proof -
  have keys: "set (map fst (ring s')) = set (map fst (ring s))"
    using arg_cong [OF m, of dom] by (simp add: dom_map_of_conv_image_fst)
  have "sort (map fst (ring s')) = sort (map fst (ring s))"
    using ok ok' keys by (intro sorted_distinct_set_unique) (simp_all add: ring_ok_def)
  with ok ok' have sk: "sortedKeys s' = sortedKeys s"
    by (simp add: ring_ok_def)
  from keys have empty: "ring s' = [] \<longleftrightarrow> ring s = []"
    by (metis list.map_disc_iff set_empty)
  have na: "node_at s' = node_at s"
    by (rule ext) (simp add: node_at_def sk m split: option.splits)
  have bs: "binarySearch s' t = binarySearch s t" for t
    by (simp add: binarySearch_def sk)
  show "get h s' key = get h s key"
    by (simp add: get_def sk empty na bs Let_def split: sum.splits)
  have "getN_loop s' c 0 (binarySearch s t) [] [] = getN_loop s c 0 (binarySearch s t) [] []" for t
    using getN_loop_collect [of "[]" "[]" "binarySearch s t" s c 0]
      getN_loop_collect [of "[]" "[]" "binarySearch s t" s' c 0]
      binarySearch_le [OF ok, of t]
    by (simp add: sk na)
  then show "getN h s' key c = getN h s key c"
    by (simp add: getN_def empty bs Let_def split: sum.splits)
  have "snd ` set (ring s') = snd ` set (ring s)"
    using ok ok' arg_cong [OF m, of ran] by (simp add: ran_distinct ring_ok_def)
  then show "set (nodes s') = set (nodes s)" and "size_orbit s' = size_orbit s"
    by (simp_all add: nodes_def getUniqueNodes_def size_orbit_card)
qed

lemma roundtrip_owned:
  assumes ok: "ring_ok s" and own: "owned h s"
  shows "\<exists>s'. fromJSON h (toJSON s) = Inr s' \<and> ring_ok s' \<and> map_of (ring s') = map_of (ring s)"
proof -
  let ?s0 = "HashOrbit (Some (replicas s))"
  have r0: "replicas ?s0 = replicas s" by (simp add: HashOrbit_def)
  have member: "n \<in> set (nodes s) \<longleftrightarrow> (\<exists>p. map_of (ring s) p = Some n)" for n
  proof -
    have "set (nodes s) = ran (map_of (ring s))"
      using ok by (simp add: nodes_def getUniqueNodes_def ran_distinct ring_ok_def)
    then show ?thesis by (auto simp: ran_def)
  qed
  have "\<forall>n \<in> set (nodes s). n \<noteq> [] \<and> length n \<le> 1000 \<and>
          (\<forall>j<nat (replicas ?s0). map_of (ring s) (h (replica_key n j)) = Some n)"
  proof
    fix n assume n: "n \<in> set (nodes s)"
    then obtain p where p: "map_of (ring s) p = Some n" using member by blast
    with own have "\<forall>j<nat (replicas s). map_of (ring s) (h (replica_key n j)) = Some n"
      unfolding owned_def by blast
    moreover from n ok have "n \<noteq> [] \<and> length n \<le> 1000"
      by (auto simp: nodes_def getUniqueNodes_def ring_ok_def)
    ultimately show "n \<noteq> [] \<and> length n \<le> 1000 \<and>
          (\<forall>j<nat (replicas ?s0). map_of (ring s) (h (replica_key n j)) = Some n)"
      by (simp add: r0)
  qed
  moreover have "map_of (ring ?s0) \<subseteq>\<^sub>m map_of (ring s)"
    by (simp add: HashOrbit_def)
  ultimately obtain s' where s': "add_all h (nodes s) ?s0 = Inr s'"
    "map_of (ring s') \<subseteq>\<^sub>m map_of (ring s)" "ring_ok s'"
    "\<forall>n \<in> set (nodes s). \<forall>j<nat (replicas ?s0). h (replica_key n j) \<in> dom (map_of (ring s'))"
    using add_all_submap [OF _ _ ring_ok_HashOrbit, of "nodes s" "Some (replicas s)" "map_of (ring s)" h]
    by blast
  have "dom (map_of (ring s)) \<subseteq> dom (map_of (ring s'))"
  proof
    fix p assume "p \<in> dom (map_of (ring s))"
    then obtain n where pn: "map_of (ring s) p = Some n" by blast
    with own obtain i where "i < nat (replicas s)" "p = h (replica_key n i)"
      unfolding owned_def by blast
    moreover from pn have "n \<in> set (nodes s)" using member by blast
    ultimately show "p \<in> dom (map_of (ring s'))"
      using s'(4) by (simp add: r0)
  qed
  with s'(2) have "map_of (ring s') = map_of (ring s)"
    by (metis map_le_antisym map_le_def subsetD)
  with s'(1,3) show ?thesis
    by (simp add: fromJSON_def toJSON_def)
qed

lemma example_collision_free:
  "collision_free poly_hash32 (replicas example_ring) (map called_node [Add ''a'', Add ''b''])"
proof -
  have i: "{0..<nat (replicas example_ring)} = {0, Suc 0}"
    by (auto simp: example_ring_def)
  have a0: "poly_hash32 (replica_key ''a'' 0) = 95063" by code_simp
  have a1: "poly_hash32 (replica_key ''a'' (Suc 0)) = 95064" by code_simp
  have b0: "poly_hash32 (replica_key ''b'' 0) = 96024" by code_simp
  have b1: "poly_hash32 (replica_key ''b'' (Suc 0)) = 96025" by code_simp
  show ?thesis
    unfolding collision_free_def i by (simp add: a0 a1 b0 b1)
qed

text \<open>
  C4 as stated fails: under a hash where \<open>a:0\<close> and \<open>b:0\<close> collide, the ring after
  \<open>add('a'); add('b')\<close> maps the shared position to \<open>b\<close> and lists its nodes as
  \<open>b, a\<close>; \<open>fromJSON\<close> adds them in that order, so the restored ring maps the shared
  position to \<open>a\<close>, and \<open>get('a:0')\<close> differs.
\<close>

theorem roundtrip_counterexample:
  "run colliding_hash32 [Add ''a'', Add ''b''] (HashOrbit (Some 2)) = Inr collided_ring \<and>
   fromJSON colliding_hash32 (toJSON collided_ring) = Inr restored_ring \<and>
   ''a:0'' \<noteq> [] \<and> length ''a:0'' \<le> 1000 \<and>
   get colliding_hash32 collided_ring ''a:0'' = Inr (Some ''b'') \<and>
   get colliding_hash32 restored_ring ''a:0'' = Inr (Some ''a'') \<and>
   get colliding_hash32 restored_ring ''a:0'' \<noteq> get colliding_hash32 collided_ring ''a:0''"
  unfolding collided_ring_def restored_ring_def by code_simp

text \<open>
  C4 (amended): for a ring reached from the constructor by \<open>add\<close> and \<open>remove\<close> calls
  whose node identifiers are collision free for the ring's replica count,
  \<open>fromJSON(toJSON(ring))\<close> succeeds and the restored ring agrees with the original on
  \<open>get\<close> and \<open>getN\<close> for every key and count, on \<open>size\<close>, and on \<open>nodes\<close> as a set.
\<close>

theorem roundtrip_without_collisions:
  assumes "run h cs (HashOrbit options) = Inr s"
    and "collision_free h (replicas s) (map called_node cs)"
  shows "\<exists>s'. fromJSON h (toJSON s) = Inr s' \<and>
           (\<forall>key. get h s' key = get h s key) \<and>
           (\<forall>key count. getN h s' key count = getN h s key count) \<and>
           size_orbit s' = size_orbit s \<and> set (nodes s') = set (nodes s)"
proof -
  have ok: "ring_ok s"
    using ring_ok_HashOrbit assms(1) by (rule ring_ok_run)
  have reps: "replicas s = replicas (HashOrbit options)"
    using assms(1) by (rule run_replicas)
  have "owned h s \<and> replicas s = replicas (HashOrbit options)"
  proof (rule owned_run [OF _ _ _ owned_HashOrbit assms(1)])
    show "collision_free h (replicas (HashOrbit options)) (map called_node cs)"
      using assms(2) reps by simp
  qed (simp_all add: HashOrbit_def)
  then have "owned h s" by simp
  from roundtrip_owned [OF ok this] obtain s' where s': "fromJSON h (toJSON s) = Inr s'"
    "ring_ok s'" "map_of (ring s') = map_of (ring s)" by blast
  with lookups_agree [OF ok s'(2,3)] show ?thesis by simp
qed

theorem roundtrip_without_collisions_witness:
  "run poly_hash32 [Add ''a'', Add ''b''] (HashOrbit (Some 2)) = Inr example_ring \<and>
   collision_free poly_hash32 (replicas example_ring) (map called_node [Add ''a'', Add ''b'']) \<and>
   (\<exists>s'. fromJSON poly_hash32 (toJSON example_ring) = Inr s' \<and>
      (\<forall>key. get poly_hash32 s' key = get poly_hash32 example_ring key) \<and>
      (\<forall>key count. getN poly_hash32 s' key count = getN poly_hash32 example_ring key count) \<and>
      size_orbit s' = size_orbit example_ring \<and> set (nodes s') = set (nodes example_ring))"
  using roundtrip_without_collisions [OF run_example example_collision_free]
    run_example example_collision_free
  by simp

section \<open>Removing a node that was never added\<close>







end
